theory Spec2Isabelle
  imports Complex_Main "HOL-Library.Word" "HOL-Library.Signed_Division"
begin

section \<open>Conventions of the embedding\<close>

text \<open>
  Every program of the corpus is one C function and a \<^verbatim>\<open>main\<close> that calls it on a
  literal input and hands the result to \<^verbatim>\<open>printf\<close>. The functions are embedded one
  by one, each loop as a recursive function over the loop variables.

  \<^item> An array argument is a list. A read \<^verbatim>\<open>arr[i]\<close> is \<open>load arr i\<close>, which is
    \<open>None\<close> outside \<open>0 .. length arr - 1\<close>; a function that reads an array returns an
    \<open>option\<close>, and \<open>None\<close> stands for an out-of-bounds read.
  \<^item> A C string is the list of its characters before the terminating NUL, and
    \<^verbatim>\<open>strlen\<close> is the length of that list.
  \<^item> Loop counters and lengths are \<open>int\<close>: they stay inside the range of a C
    \<^verbatim>\<open>int\<close> for every array or string whose length fits one.
  \<^item> The remainder \<^verbatim>\<open>a % b\<close> of C truncates towards zero: it is \<open>a smod b\<close>.
  \<^item> Where the data themselves are added up (\<^verbatim>\<open>new1.c\<close>, \<^verbatim>\<open>new2.c\<close>) a C
    \<^verbatim>\<open>int\<close> is a 32-bit word, so that a sum that leaves the range wraps around, as
    it does in the compiled programs. In the other functions the values handled stay in
    range on the inputs considered and are plain integers.
  \<^item> A \<^verbatim>\<open>double\<close> is a rational number: on the one input evaluated every
    intermediate value is a dyadic fraction that a \<^verbatim>\<open>double\<close> holds exactly.
  \<^item> The effect of \<^verbatim>\<open>main\<close> is the \<^verbatim>\<open>printf\<close> call it makes (format and
    arguments) and its exit code.
\<close>

definition load :: "'a list \<Rightarrow> int \<Rightarrow> 'a option" where
  "load arr i = (if 0 \<le> i \<and> i < int (length arr) then Some (arr ! nat i) else None)"

datatype printf_arg = Int_arg int | Double_arg rat

datatype call = Printf string "printf_arg list"

type_synonym run = "call \<times> int"

section \<open>array\_operations.c\<close>

text \<open>
  \<^verbatim>\<open>
  int find_max(int arr[], int n) {
      int max = arr[0];
      for (int i = 1; i < n; i++) {
          if (arr[i] > max) {
              max = arr[i];
          }
      }
      return max;
  }
  \<close>
\<close>

function find_max_loop :: "int list \<Rightarrow> int \<Rightarrow> int \<Rightarrow> int \<Rightarrow> int option" where
  "find_max_loop arr n i mx =
     (if i < n then
        (case load arr i of
           None \<Rightarrow> None
         | Some v \<Rightarrow> find_max_loop arr n (i + 1) (if v > mx then v else mx))
      else Some mx)"
  by pat_completeness auto
termination
  by (relation "measure (\<lambda>(arr, n, i, mx). nat (n - i))") auto

definition find_max :: "int list \<Rightarrow> int \<Rightarrow> int option" where
  "find_max arr n =
     (case load arr 0 of
        None \<Rightarrow> None
      | Some mx \<Rightarrow> find_max_loop arr n 1 mx)"

definition main_array_operations :: "run option" where
  "main_array_operations =
     (let arr = [3, 5, 7, 2, 8, 6, 4, 10, 12, 1]; n = int (length arr)
      in case find_max arr n of
           None \<Rightarrow> None
         | Some r \<Rightarrow> Some (Printf ''Maximum element: %d\<newline>'' [Int_arg r], 0))"

section \<open>fibonacci\_recursive.c\<close>

text \<open>
  \<^verbatim>\<open>
  int fibonacci(int n) {
      if (n <= 1)
          return n;
      return fibonacci(n-1) + fibonacci(n-2);
  }
  \<close>
  and the loop of \<^verbatim>\<open>main\<close>:
  \<^verbatim>\<open>
  int result = 0;
  for (int i = 0; i < 20; i++) {
      result += fibonacci(i);
  }
  \<close>
\<close>

function fibonacci :: "int \<Rightarrow> int" where
  "fibonacci n = (if n \<le> 1 then n else fibonacci (n - 1) + fibonacci (n - 2))"
  by pat_completeness auto
termination
  by (relation "measure nat") auto

function fibonacci_main_loop :: "int \<Rightarrow> int \<Rightarrow> int" where
  "fibonacci_main_loop i result =
     (if i < 20 then fibonacci_main_loop (i + 1) (result + fibonacci i) else result)"
  by pat_completeness auto
termination
  by (relation "measure (\<lambda>(i, result). nat (20 - i))") auto

definition main_fibonacci_recursive :: run where
  "main_fibonacci_recursive =
     (let result = fibonacci_main_loop 0 0
      in (Printf ''Result: %d\<newline>'' [Int_arg result], 0))"

section \<open>polynomial\_eval.c\<close>

text \<open>
  \<^verbatim>\<open>
  double polynomial(double x, double coeffs[], int degree) {
      double result = 0.0;
      double power = 1.0;
      for (int i = 0; i <= degree; i++) {
          result += coeffs[i] * power;
          power *= x;
      }
      return result;
  }
  \<close>
  The variable \<^verbatim>\<open>power\<close> is \<open>pwr\<close> here.
\<close>

function polynomial_loop :: "rat \<Rightarrow> rat list \<Rightarrow> int \<Rightarrow> int \<Rightarrow> rat \<Rightarrow> rat \<Rightarrow> rat option" where
  "polynomial_loop x coeffs degree i result pwr =
     (if i \<le> degree then
        (case load coeffs i of
           None \<Rightarrow> None
         | Some c \<Rightarrow> polynomial_loop x coeffs degree (i + 1) (result + c * pwr) (pwr * x))
      else Some result)"
  by pat_completeness auto
termination
  by (relation "measure (\<lambda>(x, coeffs, degree, i, result, pwr). nat (degree + 1 - i))") auto

definition polynomial :: "rat \<Rightarrow> rat list \<Rightarrow> int \<Rightarrow> rat option" where
  "polynomial x coeffs degree = polynomial_loop x coeffs degree 0 0 1"

definition main_polynomial_eval :: "run option" where
  "main_polynomial_eval =
     (let coeffs = [1, 2, 3, 4]; x = 5 / 2
      in case polynomial x coeffs 3 of
           None \<Rightarrow> None
         | Some r \<Rightarrow> Some (Printf ''Result: %.2f\<newline>'' [Double_arg r], 0))"

section \<open>new1.c and new2.c\<close>

text \<open>
  \<^verbatim>\<open>
  int sum_array_unoptimized(int *arr, int size) {
      int sum = 0;
      for (int i = 0; i < size; i++) {
          sum += arr[i] * 1;
      }
      return sum;
  }
  \<close>
\<close>

text \<open>The parameter \<^verbatim>\<open>size\<close> is \<open>sz\<close> and the variable \<^verbatim>\<open>sum\<close> is \<open>s\<close>.\<close>

type_synonym int32 = "32 word"

function sum_array_unoptimized_loop :: "int32 list \<Rightarrow> int \<Rightarrow> int \<Rightarrow> int32 \<Rightarrow> int32 option" where
  "sum_array_unoptimized_loop arr sz i s =
     (if i < sz then
        (case load arr i of
           None \<Rightarrow> None
         | Some v \<Rightarrow> sum_array_unoptimized_loop arr sz (i + 1) (s + v * 1))
      else Some s)"
  by pat_completeness auto
termination
  by (relation "measure (\<lambda>(arr, sz, i, s). nat (sz - i))") auto

definition sum_array_unoptimized :: "int32 list \<Rightarrow> int \<Rightarrow> int32 option" where
  "sum_array_unoptimized arr sz = sum_array_unoptimized_loop arr sz 0 0"

text \<open>
  \<^verbatim>\<open>
  int sum_array_optimized(int *arr, int size) {
      int sum = 0;
      int i = 0;
      for (; i < size - 1; i += 2) {
          sum += arr[i] + arr[i + 1];
      }
      for (; i < size; i++) {
          sum += arr[i];
      }
      return sum;
  }
  \<close>
  The first loop hands its counter and its sum over to the second.
\<close>

function sum_array_optimized_pairs :: "int32 list \<Rightarrow> int \<Rightarrow> int \<Rightarrow> int32 \<Rightarrow> (int \<times> int32) option" where
  "sum_array_optimized_pairs arr sz i s =
     (if i < sz - 1 then
        (case load arr i of
           None \<Rightarrow> None
         | Some v \<Rightarrow>
             (case load arr (i + 1) of
                None \<Rightarrow> None
              | Some w \<Rightarrow> sum_array_optimized_pairs arr sz (i + 2) (s + (v + w))))
      else Some (i, s))"
  by pat_completeness auto
termination
  by (relation "measure (\<lambda>(arr, sz, i, s). nat (sz - i))") auto

function sum_array_optimized_rest :: "int32 list \<Rightarrow> int \<Rightarrow> int \<Rightarrow> int32 \<Rightarrow> int32 option" where
  "sum_array_optimized_rest arr sz i s =
     (if i < sz then
        (case load arr i of
           None \<Rightarrow> None
         | Some v \<Rightarrow> sum_array_optimized_rest arr sz (i + 1) (s + v))
      else Some s)"
  by pat_completeness auto
termination
  by (relation "measure (\<lambda>(arr, sz, i, s). nat (sz - i))") auto

definition sum_array_optimized :: "int32 list \<Rightarrow> int \<Rightarrow> int32 option" where
  "sum_array_optimized arr sz =
     (case sum_array_optimized_pairs arr sz 0 0 of
        None \<Rightarrow> None
      | Some (i, s) \<Rightarrow> sum_array_optimized_rest arr sz i s)"

section \<open>string\_search.c\<close>

text \<open>
  \<^verbatim>\<open>
  int string_search(char* text, char* pattern) {
      int text_len = strlen(text);
      int pattern_len = strlen(pattern);
      for (int i = 0; i <= text_len - pattern_len; i++) {
          int j;
          for (j = 0; j < pattern_len; j++) {
              if (text[i + j] != pattern[j])
                  break;
          }
          if (j == pattern_len)
              return i;
      }
      return -1;
  }
  \<close>
  Both loops carry a counter \<open>cmps\<close> of the character comparisons
  \<^verbatim>\<open>text[i + j] != pattern[j]\<close> evaluated so far; the inner loop returns the value of
  \<open>j\<close> at which it stops. The lengths are those of the two lists, taken to fit an
  \<^verbatim>\<open>int\<close>.
\<close>

function string_search_inner :: "string \<Rightarrow> string \<Rightarrow> int \<Rightarrow> int \<Rightarrow> nat \<Rightarrow> (int \<times> nat) option" where
  "string_search_inner text pattern i j cmps =
     (if j < int (length pattern) then
        (case load text (i + j) of
           None \<Rightarrow> None
         | Some a \<Rightarrow>
             (case load pattern j of
                None \<Rightarrow> None
              | Some b \<Rightarrow>
                  if a \<noteq> b then Some (j, cmps + 1)
                  else string_search_inner text pattern i (j + 1) (cmps + 1)))
      else Some (j, cmps))"
  by pat_completeness auto
termination
  by (relation "measure (\<lambda>(text, pattern, i, j, cmps). nat (int (length pattern) - j))") auto

function string_search_outer :: "string \<Rightarrow> string \<Rightarrow> int \<Rightarrow> nat \<Rightarrow> (int \<times> nat) option" where
  "string_search_outer text pattern i cmps =
     (if i \<le> int (length text) - int (length pattern) then
        (case string_search_inner text pattern i 0 cmps of
           None \<Rightarrow> None
         | Some (j, cmps') \<Rightarrow>
             if j = int (length pattern) then Some (i, cmps')
             else string_search_outer text pattern (i + 1) cmps')
      else Some (- 1, cmps))"
  by pat_completeness auto
termination
  by (relation "measure (\<lambda>(text, pattern, i, cmps). nat (int (length text) - int (length pattern) + 1 - i))") auto

definition string_search_run :: "string \<Rightarrow> string \<Rightarrow> (int \<times> nat) option" where
  "string_search_run text pattern = string_search_outer text pattern 0 0"

definition string_search :: "string \<Rightarrow> string \<Rightarrow> int option" where
  "string_search text pattern = map_option fst (string_search_run text pattern)"

definition string_search_comparisons :: "string \<Rightarrow> string \<Rightarrow> nat option" where
  "string_search_comparisons text pattern = map_option snd (string_search_run text pattern)"

definition main_string_search :: "run option" where
  "main_string_search =
     (let text = ''ABABDABACDABABCABCABCABCABC''; pattern = ''ABABCAB''
      in case string_search text pattern of
           None \<Rightarrow> None
         | Some result \<Rightarrow> Some (Printf ''Pattern found at index: %d\<newline>'' [Int_arg result], 0))"

text \<open>
  What the contract of the search speaks of: the pattern matches the text at offset \<open>k\<close>,
  character for character, inside the text.
\<close>

definition occurs_at :: "string \<Rightarrow> string \<Rightarrow> nat \<Rightarrow> bool" where
  "occurs_at text pattern k \<longleftrightarrow>
     k + length pattern \<le> length text \<and> (\<forall>m < length pattern. text ! (k + m) = pattern ! m)"

section \<open>gcd\_algorithm.c\<close>

text \<open>
  \<^verbatim>\<open>
  int gcd(int a, int b) {
      while (b != 0) {
          int temp = b;
          b = a % b;
          a = temp;
      }
      return a;
  }
  \<close>
  The function is \<open>gcd_c\<close> here, \<open>gcd\<close> being the greatest common divisor of the
  library. The loop is a partial function into \<open>option\<close>: a run that never leaves
  the loop would be \<open>None\<close>.
\<close>

partial_function (option) gcd_c :: "int \<Rightarrow> int \<Rightarrow> int option" where
  "gcd_c a b = (if b \<noteq> 0 then gcd_c b (a smod b) else Some a)"

declare gcd_c.simps [code]

section \<open>Properties\<close>

text \<open>
  The equations of the loops unfold for ever under the simplifier; they are applied one
  step at a time.
\<close>

declare find_max_loop.simps [simp del]
declare fibonacci.simps [simp del]
declare fibonacci_main_loop.simps [simp del]
declare polynomial_loop.simps [simp del]
declare sum_array_unoptimized_loop.simps [simp del]
declare sum_array_optimized_pairs.simps [simp del]
declare sum_array_optimized_rest.simps [simp del]
declare string_search_inner.simps [simp del]
declare string_search_outer.simps [simp del]

lemma load_in_range: "k < length arr \<Longrightarrow> load arr (int k) = Some (arr ! k)"
  by (simp add: load_def)

subsection \<open>find\_max\<close>

lemma find_max_loop_fold:
  "k \<le> length arr \<Longrightarrow>
     find_max_loop arr (int (length arr)) (int k) mx = Some (fold max (drop k arr) mx)"
proof (induction "length arr - k" arbitrary: k mx rule: less_induct)
  case less
  show ?case
  proof (cases "k < length arr")
    case False
    with less.prems show ?thesis
      by (subst find_max_loop.simps) simp
  next
    case True
    then have rd: "load arr (int k) = Some (arr ! k)"
      by (rule load_in_range)
    have dr: "drop k arr = arr ! k # drop (Suc k) arr"
      using True by (simp add: Cons_nth_drop_Suc)
    have upd: "(if arr ! k > mx then arr ! k else mx) = max (arr ! k) mx"
      by (simp add: max_def)
    from True have "length arr - Suc k < length arr - k" by simp
    from less.hyps [OF this, of "max (arr ! k) mx"] True
    have "find_max_loop arr (int (length arr)) (int (Suc k)) (max (arr ! k) mx)
          = Some (fold max (drop (Suc k) arr) (max (arr ! k) mx))"
      by simp
    then show ?thesis
      using True rd dr upd by (subst find_max_loop.simps) (simp add: add.commute)
  qed
qed

lemma find_max_Max:
  assumes "arr \<noteq> []"
  shows "find_max arr (int (length arr)) = Some (Max (set arr))"
proof -
  from assms obtain x xs where arr: "arr = x # xs" by (cases arr) auto
  have "load arr 0 = Some x"
    using arr by (simp add: load_def)
  moreover have "find_max_loop arr (int (length arr)) (int 1) x = Some (fold max (drop 1 arr) x)"
    using arr by (intro find_max_loop_fold) simp
  moreover have "Max (set arr) = fold max xs x"
    unfolding arr by (rule Max.set_eq_fold)
  ultimately show ?thesis
    using arr by (simp add: find_max_def)
qed

text \<open>
  Claim C8. For every non-empty array, \<open>find_max\<close> called with the array's length
  returns an element of the array that no element exceeds; on
  \<open>{3, 5, 7, 2, 8, 6, 4, 10, 12, 1}\<close> with \<open>n = 10\<close> it returns 12, which
  \<open>main\<close> prints.
\<close>

theorem find_max_greatest:
  "(arr \<noteq> [] \<longrightarrow>
      (\<exists>m. find_max arr (int (length arr)) = Some m \<and> m \<in> set arr \<and> (\<forall>x \<in> set arr. x \<le> m)))
   \<and> find_max [3, 5, 7, 2, 8, 6, 4, 10, 12, 1] 10 = Some 12
   \<and> main_array_operations = Some (Printf ''Maximum element: %d\<newline>'' [Int_arg 12], 0)"
proof (intro conjI impI)
  assume ne: "arr \<noteq> []"
  then have "Max (set arr) \<in> set arr" and "\<forall>x \<in> set arr. x \<le> Max (set arr)"
    by simp_all
  with find_max_Max [OF ne]
  show "\<exists>m. find_max arr (int (length arr)) = Some m \<and> m \<in> set arr \<and> (\<forall>x \<in> set arr. x \<le> m)"
    by simp
next
  show "find_max [3, 5, 7, 2, 8, 6, 4, 10, 12, 1] 10 = Some 12" by code_simp
next
  show "main_array_operations = Some (Printf ''Maximum element: %d\<newline>'' [Int_arg 12], 0)"
    by code_simp
qed

theorem find_max_greatest_witness:
  "[2, 9, 4] \<noteq> ([] :: int list) \<and>
     (\<exists>m. find_max [2, 9, 4] (int (length [2, 9, 4 :: int])) = Some m \<and> m \<in> set [2, 9, 4]
         \<and> (\<forall>x \<in> set [2, 9, 4]. x \<le> m))"
  using find_max_greatest [of "[2, 9, 4]"] by simp

subsection \<open>fibonacci\<close>

lemma fibonacci_base: "fibonacci 0 = 0" "fibonacci 1 = 1"
  by (simp_all add: fibonacci.simps)

lemma fibonacci_rec: "2 \<le> n \<Longrightarrow> fibonacci n = fibonacci (n - 1) + fibonacci (n - 2)"
  by (subst fibonacci.simps) simp

lemma int_interval_first: "i < j \<Longrightarrow> {i..<j} = insert i {i + 1..<j}" for i j :: int
  by auto

lemma fibonacci_main_loop_sum:
  "i \<le> 20 \<Longrightarrow> fibonacci_main_loop i result = result + sum fibonacci {i..<20}"
proof (induction "nat (20 - i)" arbitrary: i result rule: less_induct)
  case less
  show ?case
  proof (cases "i < 20")
    case False
    with less.prems show ?thesis
      by (subst fibonacci_main_loop.simps) simp
  next
    case True
    then have "nat (20 - (i + 1)) < nat (20 - i)" by simp
    from less.hyps [OF this, of "result + fibonacci i"] True
    have "fibonacci_main_loop (i + 1) (result + fibonacci i)
          = result + fibonacci i + sum fibonacci {i + 1..<20}"
      by simp
    moreover have "sum fibonacci {i..<20} = fibonacci i + sum fibonacci {i + 1..<20}"
      using True by (subst int_interval_first) auto
    ultimately show ?thesis
      using True by (subst fibonacci_main_loop.simps) simp
  qed
qed

text \<open>
  Claim C2, as amended. \<open>fibonacci 0 = 0\<close>, \<open>fibonacci 1 = 1\<close> and
  \<open>fibonacci n = fibonacci (n - 1) + fibonacci (n - 2)\<close> from 2 on; the loop of
  \<open>main\<close> computes the sum of \<open>fibonacci i\<close> for \<open>i\<close> from 0 to 19, which is
  10945.
\<close>

theorem fibonacci_main_sum:
  "fibonacci 0 = 0 \<and> fibonacci 1 = 1
   \<and> (2 \<le> n \<longrightarrow> fibonacci n = fibonacci (n - 1) + fibonacci (n - 2))
   \<and> fibonacci_main_loop 0 0 = sum fibonacci {0..<20}
   \<and> fibonacci_main_loop 0 0 = 10945
   \<and> main_fibonacci_recursive = (Printf ''Result: %d\<newline>'' [Int_arg 10945], 0)"
proof (intro conjI impI)
  show "fibonacci_main_loop 0 0 = sum fibonacci {0..<20}"
    by (simp add: fibonacci_main_loop_sum)
  show "fibonacci_main_loop 0 0 = 10945" by code_simp
  show "main_fibonacci_recursive = (Printf ''Result: %d\<newline>'' [Int_arg 10945], 0)"
    by code_simp
qed (simp_all add: fibonacci_base fibonacci_rec)

theorem fibonacci_main_sum_witness:
  "(2::int) \<le> 5 \<and> fibonacci 5 = fibonacci 4 + fibonacci 3 \<and> fibonacci_main_loop 0 0 = 10945"
  using fibonacci_main_sum [of 5] by simp

text \<open>
  Claim C2 as it is written fails: the loop does not compute 6764 (that is the sum up to
  \<open>i = 18\<close>).
\<close>

theorem fibonacci_main_sum_not_6764:
  "fibonacci_main_loop 0 0 \<noteq> 6764"
  by code_simp

subsection \<open>polynomial\<close>

text \<open>
  Claim C3, as amended. Over exact rational arithmetic, \<open>polynomial\<close> on the
  coefficients \<open>{1, 2, 3, 4}\<close> (degree 3) at \<open>x = 2.5\<close> is
  \<open>1 + 2(2.5) + 3(2.5)\<^sup>2 + 4(2.5)\<^sup>3 = 87.25\<close>, the value \<open>main\<close> hands to
  \<open>printf\<close> under the format \<open>%.2f\<close>.
\<close>

theorem polynomial_literal:
  "polynomial (5 / 2) [1, 2, 3, 4] 3 = Some (349 / 4)
   \<and> (349 / 4 :: rat) = 1 + 2 * (5 / 2) + 3 * (5 / 2) ^ 2 + 4 * (5 / 2) ^ 3
   \<and> main_polynomial_eval = Some (Printf ''Result: %.2f\<newline>'' [Double_arg (349 / 4)], 0)"
proof (intro conjI)
  show "polynomial (5 / 2) [1, 2, 3, 4] 3 = Some (349 / 4)" by code_simp
  show "(349 / 4 :: rat) = 1 + 2 * (5 / 2) + 3 * (5 / 2) ^ 2 + 4 * (5 / 2) ^ 3"
    by (simp add: power2_eq_square power3_eq_cube)
  show "main_polynomial_eval = Some (Printf ''Result: %.2f\<newline>'' [Double_arg (349 / 4)], 0)"
    by code_simp
qed

text \<open>Claim C3 as it is written fails: the value is not 86.\<close>

theorem polynomial_literal_not_86:
  "polynomial (5 / 2) [1, 2, 3, 4] 3 \<noteq> Some 86"
  by code_simp

subsection \<open>sum\_array\_unoptimized and sum\_array\_optimized\<close>

lemma sum_array_unoptimized_loop_drop:
  "k \<le> length arr \<Longrightarrow>
     sum_array_unoptimized_loop arr (int (length arr)) (int k) s = Some (s + sum_list (drop k arr))"
proof (induction "length arr - k" arbitrary: k s rule: less_induct)
  case less
  show ?case
  proof (cases "k < length arr")
    case False
    with less.prems show ?thesis
      by (subst sum_array_unoptimized_loop.simps) simp
  next
    case True
    then have rd: "load arr (int k) = Some (arr ! k)"
      by (rule load_in_range)
    have dr: "drop k arr = arr ! k # drop (Suc k) arr"
      using True by (simp add: Cons_nth_drop_Suc)
    from True have "length arr - Suc k < length arr - k" by simp
    from less.hyps [OF this, of "s + arr ! k * 1"] True
    have "sum_array_unoptimized_loop arr (int (length arr)) (int (Suc k)) (s + arr ! k * 1)
          = Some (s + arr ! k * 1 + sum_list (drop (Suc k) arr))"
      by simp
    then show ?thesis
      using True rd dr by (subst sum_array_unoptimized_loop.simps) (simp add: add.commute add.left_commute)
  qed
qed

lemma sum_array_optimized_rest_drop:
  "k \<le> length arr \<Longrightarrow>
     sum_array_optimized_rest arr (int (length arr)) (int k) s = Some (s + sum_list (drop k arr))"
proof (induction "length arr - k" arbitrary: k s rule: less_induct)
  case less
  show ?case
  proof (cases "k < length arr")
    case False
    with less.prems show ?thesis
      by (subst sum_array_optimized_rest.simps) simp
  next
    case True
    then have rd: "load arr (int k) = Some (arr ! k)"
      by (rule load_in_range)
    have dr: "drop k arr = arr ! k # drop (Suc k) arr"
      using True by (simp add: Cons_nth_drop_Suc)
    from True have "length arr - Suc k < length arr - k" by simp
    from less.hyps [OF this, of "s + arr ! k"] True
    have "sum_array_optimized_rest arr (int (length arr)) (int (Suc k)) (s + arr ! k)
          = Some (s + arr ! k + sum_list (drop (Suc k) arr))"
      by simp
    then show ?thesis
      using True rd dr by (subst sum_array_optimized_rest.simps) (simp add: add.commute add.left_commute)
  qed
qed

lemma sum_array_optimized_pairs_inv:
  "k \<le> length arr \<Longrightarrow>
     \<exists>k' s'. sum_array_optimized_pairs arr (int (length arr)) (int k) s = Some (int k', s')
        \<and> k' \<le> length arr \<and> s' + sum_list (drop k' arr) = s + sum_list (drop k arr)"
proof (induction "length arr - k" arbitrary: k s rule: less_induct)
  case less
  show ?case
  proof (cases "Suc k < length arr")
    case False
    then have "sum_array_optimized_pairs arr (int (length arr)) (int k) s = Some (int k, s)"
      by (subst sum_array_optimized_pairs.simps) auto
    with less.prems show ?thesis by blast
  next
    case True
    then have rd: "load arr (int k) = Some (arr ! k)" "load arr (int k + 1) = Some (arr ! Suc k)"
      using load_in_range [of k arr] load_in_range [of "Suc k" arr] by (simp_all add: add.commute)
    have dr: "drop k arr = arr ! k # arr ! Suc k # drop (Suc (Suc k)) arr"
      using True by (simp add: Cons_nth_drop_Suc Suc_lessD)
    have step: "sum_array_optimized_pairs arr (int (length arr)) (int k) s
        = sum_array_optimized_pairs arr (int (length arr)) (int (Suc (Suc k))) (s + (arr ! k + arr ! Suc k))"
      using True rd by (subst sum_array_optimized_pairs.simps) (simp add: add.commute)
    from True have "length arr - Suc (Suc k) < length arr - k" by simp
    from less.hyps [OF this, of "s + (arr ! k + arr ! Suc k)"] True
    obtain k' s' where r:
      "sum_array_optimized_pairs arr (int (length arr)) (int (Suc (Suc k))) (s + (arr ! k + arr ! Suc k)) = Some (int k', s')"
      "k' \<le> length arr"
      "s' + sum_list (drop k' arr) = s + (arr ! k + arr ! Suc k) + sum_list (drop (Suc (Suc k)) arr)"
      by auto
    from r(3) have "s' + sum_list (drop k' arr) = s + sum_list (drop k arr)"
      by (simp add: dr add.assoc)
    with r(1,2) step show ?thesis by auto
  qed
qed

lemma sum_array_unoptimized_sum_list:
  "sum_array_unoptimized arr (int (length arr)) = Some (sum_list arr)"
  using sum_array_unoptimized_loop_drop [of 0 arr 0] by (simp add: sum_array_unoptimized_def)

lemma sum_array_optimized_sum_list:
  "sum_array_optimized arr (int (length arr)) = Some (sum_list arr)"
proof -
  from sum_array_optimized_pairs_inv [of 0 arr 0]
  obtain k' s' where r: "sum_array_optimized_pairs arr (int (length arr)) 0 0 = Some (int k', s')"
      "k' \<le> length arr" "s' + sum_list (drop k' arr) = sum_list arr"
    by auto
  from sum_array_optimized_rest_drop [OF r(2), of s'] r(1,3)
  show ?thesis by (simp add: sum_array_optimized_def)
qed

lemma sint_in_range: "signed_take_bit 31 (sint x) = sint x" for x :: int32
  using sint_ge [of x] sint_lt [of x] by (intro signed_take_bit_int_eq_self) simp_all

lemma sint_sum_list:
  "sint (sum_list arr) = signed_take_bit 31 (sum_list (map sint arr))" for arr :: "int32 list"
proof (induction arr)
  case Nil
  show ?case by simp
next
  case (Cons x xs)
  have "sint (x + sum_list xs) = signed_take_bit 31 (sint x + sint (sum_list xs))"
    by (simp add: sint_word_ariths)
  also have "\<dots> = signed_take_bit 31
      (signed_take_bit 31 (sint x) + signed_take_bit 31 (sum_list (map sint xs)))"
    by (simp only: Cons.IH sint_in_range)
  also have "\<dots> = signed_take_bit 31 (sint x + sum_list (map sint xs))"
    by (rule signed_take_bit_add)
  finally show ?case by simp
qed

lemma wrap_mod: "signed_take_bit 31 k = (k + 2 ^ 31) mod 2 ^ 32 - 2 ^ 31" for k :: int
  by (simp add: signed_take_bit_eq_take_bit_shift take_bit_eq_mod)

text \<open>
  Claim C4, as amended. For every array of 32-bit integers, of any length,
  \<open>sum_array_unoptimized\<close> and \<open>sum_array_optimized\<close> return the same value: the
  sum of the elements in 32-bit arithmetic, that is the arithmetic sum reduced modulo
  \<open>2\<^sup>3\<^sup>2\<close> into the range of \<open>int\<close>. It is the arithmetic sum whenever that sum
  lies in the range. Both return 15 on \<open>{1, 2, 3, 4, 5}\<close>.
\<close>

theorem sum_array_agree:
  "sum_array_unoptimized arr (int (length arr)) = Some (sum_list arr)
   \<and> sum_array_optimized arr (int (length arr)) = Some (sum_list arr)
   \<and> sint (sum_list arr) = (sum_list (map sint arr) + 2 ^ 31) mod 2 ^ 32 - 2 ^ 31
   \<and> (- (2 ^ 31) \<le> sum_list (map sint arr) \<and> sum_list (map sint arr) < 2 ^ 31 \<longrightarrow>
        sint (sum_list arr) = sum_list (map sint arr))
   \<and> sum_array_unoptimized [1, 2, 3, 4, 5] 5 = Some 15
   \<and> sum_array_optimized [1, 2, 3, 4, 5] 5 = Some 15"
proof (intro conjI impI)
  show "sum_array_unoptimized arr (int (length arr)) = Some (sum_list arr)"
    by (rule sum_array_unoptimized_sum_list)
  show "sum_array_optimized arr (int (length arr)) = Some (sum_list arr)"
    by (rule sum_array_optimized_sum_list)
  show "sint (sum_list arr) = (sum_list (map sint arr) + 2 ^ 31) mod 2 ^ 32 - 2 ^ 31"
    by (simp only: sint_sum_list wrap_mod)
  show "sint (sum_list arr) = sum_list (map sint arr)"
    if "- (2 ^ 31) \<le> sum_list (map sint arr) \<and> sum_list (map sint arr) < 2 ^ 31"
    using that by (simp only: sint_sum_list) (rule signed_take_bit_int_eq_self, simp_all)
  show "sum_array_unoptimized [1, 2, 3, 4, 5] 5 = Some 15"
    using sum_array_unoptimized_sum_list [of "[1, 2, 3, 4, 5]"] by simp
  show "sum_array_optimized [1, 2, 3, 4, 5] 5 = Some 15"
    using sum_array_optimized_sum_list [of "[1, 2, 3, 4, 5]"] by simp
qed

theorem sum_array_agree_witness:
  "- (2 ^ 31) \<le> sum_list (map sint [7, - 9, 4 :: int32]) \<and> sum_list (map sint [7, - 9, 4 :: int32]) < 2 ^ 31
   \<and> sum_array_unoptimized [7, - 9, 4] 3 = Some 2
   \<and> sum_array_optimized [7, - 9, 4] 3 = Some 2
   \<and> sint (sum_list [7, - 9, 4 :: int32]) = sum_list (map sint [7, - 9, 4 :: int32])"
  using sum_array_agree [of "[7, - 9, 4]"] by simp

text \<open>
  Claim C4 as it is written fails on \<open>{2147483647, 1}\<close>: the arithmetic sum is
  2147483648, and both functions return \<open>-2147483648\<close>.
\<close>

theorem sum_array_overflow:
  "map_option sint (sum_array_unoptimized [2147483647, 1] 2) = Some (- 2147483648)
   \<and> map_option sint (sum_array_optimized [2147483647, 1] 2) = Some (- 2147483648)
   \<and> sum_list (map sint [2147483647, 1 :: int32]) = 2147483648"
  using sum_array_unoptimized_sum_list [of "[2147483647, 1]"]
    sum_array_optimized_sum_list [of "[2147483647, 1]"] by simp

subsection \<open>string\_search\<close>

text \<open>
  The inner loop, started at \<open>j = m\<close> on an offset \<open>k\<close> that leaves room for the
  pattern, stops at the first mismatch from \<open>m\<close> on, or at the pattern's length.
\<close>

lemma string_search_inner_spec:
  assumes "k + length pattern \<le> length text" and "m \<le> length pattern"
  shows "\<exists>m' c'. string_search_inner text pattern (int k) (int m) c = Some (int m', c')
           \<and> m \<le> m' \<and> m' \<le> length pattern
           \<and> (\<forall>l. m \<le> l \<and> l < m' \<longrightarrow> text ! (k + l) = pattern ! l)
           \<and> (m' < length pattern \<longrightarrow> text ! (k + m') \<noteq> pattern ! m')"
  using assms(2)
proof (induction "length pattern - m" arbitrary: m c rule: less_induct)
  case less
  show ?case
  proof (cases "m < length pattern")
    case False
    with less.prems have "m = length pattern" by simp
    then show ?thesis
      by (subst string_search_inner.simps) auto
  next
    case True
    then have lt: "load text (int k + int m) = Some (text ! (k + m))"
      using assms(1) load_in_range [of "k + m" "text"] by simp
    have lp: "load pattern (int m) = Some (pattern ! m)"
      using True by (simp add: load_in_range)
    show ?thesis
    proof (cases "text ! (k + m) = pattern ! m")
      case False
      then have "string_search_inner text pattern (int k) (int m) c = Some (int m, c + 1)"
        using True lt lp by (subst string_search_inner.simps) simp
      with False True show ?thesis by auto
    next
      case eq: True
      have step: "string_search_inner text pattern (int k) (int m) c
                  = string_search_inner text pattern (int k) (int (Suc m)) (c + 1)"
        using True lt lp eq by (subst string_search_inner.simps) (simp add: add.commute)
      from True have "length pattern - Suc m < length pattern - m" by simp
      from less.hyps [OF this, of "c + 1"] True
      obtain m' c' where r: "string_search_inner text pattern (int k) (int (Suc m)) (c + 1) = Some (int m', c')"
          "Suc m \<le> m'" "m' \<le> length pattern"
          "\<forall>l. Suc m \<le> l \<and> l < m' \<longrightarrow> text ! (k + l) = pattern ! l"
          "m' < length pattern \<longrightarrow> text ! (k + m') \<noteq> pattern ! m'"
        by auto
      have "\<forall>l. m \<le> l \<and> l < m' \<longrightarrow> text ! (k + l) = pattern ! l"
      proof (intro allI impI)
        fix l assume "m \<le> l \<and> l < m'"
        then show "text ! (k + l) = pattern ! l"
          using r(4) eq by (cases "l = m") auto
      qed
      with r step show ?thesis by (intro exI [of _ m'] exI [of _ c']) auto
    qed
  qed
qed

lemma string_search_inner_full:
  assumes "k + length pattern \<le> length text"
  shows "\<exists>m' c'. string_search_inner text pattern (int k) 0 c = Some (int m', c')
           \<and> (m' = length pattern \<longleftrightarrow> occurs_at text pattern k)"
proof -
  from string_search_inner_spec [OF assms, of 0 c]
  obtain m' c' where r: "string_search_inner text pattern (int k) 0 c = Some (int m', c')"
      "m' \<le> length pattern"
      "\<forall>l. l < m' \<longrightarrow> text ! (k + l) = pattern ! l"
      "m' < length pattern \<longrightarrow> text ! (k + m') \<noteq> pattern ! m'"
    by auto
  have "m' = length pattern \<longleftrightarrow> occurs_at text pattern k"
  proof (cases "m' = length pattern")
    case True
    with r(3) assms show ?thesis by (simp add: occurs_at_def)
  next
    case False
    with r(2) have "m' < length pattern" by simp
    with r(4) have "\<not> occurs_at text pattern k" by (auto simp: occurs_at_def)
    with False show ?thesis by simp
  qed
  with r(1) show ?thesis by blast
qed

lemma occurs_at_bound: "occurs_at text pattern k \<Longrightarrow> k + length pattern \<le> length text"
  by (simp add: occurs_at_def)

lemma string_search_outer_spec:
  assumes "\<forall>k' < k. \<not> occurs_at text pattern k'"
  shows "(\<exists>r c'. string_search_outer text pattern (int k) c = Some (int r, c')
            \<and> occurs_at text pattern r \<and> (\<forall>k' < r. \<not> occurs_at text pattern k'))
         \<or> ((\<exists>c'. string_search_outer text pattern (int k) c = Some (- 1, c'))
            \<and> (\<forall>k'. \<not> occurs_at text pattern k'))"
  using assms
proof (induction "Suc (length text) - k" arbitrary: k c rule: less_induct)
  case less
  show ?case
  proof (cases "k + length pattern \<le> length text")
    case False
    then have stop: "string_search_outer text pattern (int k) c = Some (- 1, c)"
      by (subst string_search_outer.simps) auto
    have "\<not> occurs_at text pattern k'" for k'
    proof (cases "k' < k")
      case True
      with less.prems show ?thesis by simp
    next
      case ge: False
      with False have "\<not> k' + length pattern \<le> length text" by simp
      then show ?thesis using occurs_at_bound by blast
    qed
    with stop show ?thesis by simp
  next
    case True
    then have guard: "int k \<le> int (length text) - int (length pattern)" by simp
    from string_search_inner_full [OF True, of c]
    obtain m' c' where r: "string_search_inner text pattern (int k) 0 c = Some (int m', c')"
        "m' = length pattern \<longleftrightarrow> occurs_at text pattern k"
      by auto
    show ?thesis
    proof (cases "occurs_at text pattern k")
      case occ: True
      with r have "string_search_outer text pattern (int k) c = Some (int k, c')"
        using guard by (subst string_search_outer.simps) simp
      with occ less.prems show ?thesis by blast
    next
      case nocc: False
      with r have step: "string_search_outer text pattern (int k) c
                         = string_search_outer text pattern (int (Suc k)) c'"
        using guard by (subst string_search_outer.simps) (simp add: add.commute)
      have earlier: "\<forall>k' < Suc k. \<not> occurs_at text pattern k'"
        using less.prems nocc by (auto simp: less_Suc_eq)
      from True have "Suc (length text) - Suc k < Suc (length text) - k" by simp
      from less.hyps [OF this earlier, of c'] step show ?thesis by simp
    qed
  qed
qed


text \<open>
  Claim C5. For every text and every non-empty pattern, \<open>string_search\<close> returns the
  smallest offset at which the pattern matches the text character for character, and
  \<open>-1\<close> when there is no such offset.
\<close>

theorem string_search_first_occurrence:
  "pattern \<noteq> [] \<Longrightarrow>
     (\<exists>r. string_search text pattern = Some (int r)
          \<and> occurs_at text pattern r \<and> (\<forall>k < r. \<not> occurs_at text pattern k))
     \<or> (string_search text pattern = Some (- 1) \<and> (\<forall>k. \<not> occurs_at text pattern k))"
proof -
  have "\<forall>k' < (0::nat). \<not> occurs_at text pattern k'" by simp
  from string_search_outer_spec [OF this, of 0] show ?thesis
    by (auto simp: string_search_def string_search_run_def)
qed

theorem string_search_first_occurrence_witness:
  "''CA'' \<noteq> [] \<and>
     ((\<exists>r. string_search ''ABCABC'' ''CA'' = Some (int r)
          \<and> occurs_at ''ABCABC'' ''CA'' r \<and> (\<forall>k < r. \<not> occurs_at ''ABCABC'' ''CA'' k))
     \<or> (string_search ''ABCABC'' ''CA'' = Some (- 1) \<and> (\<forall>k. \<not> occurs_at ''ABCABC'' ''CA'' k)))"
  using string_search_first_occurrence [of "''CA''" "''ABCABC''"] by simp

text \<open>
  Claim C6. When the pattern is longer than the text, \<open>text_len - pattern_len\<close> is
  negative, the loop over the offsets is not entered, no character is compared, and
  \<open>string_search\<close> returns \<open>-1\<close>.
\<close>

theorem string_search_pattern_longer:
  "length text < length pattern \<Longrightarrow>
     int (length text) - int (length pattern) < 0
     \<and> string_search text pattern = Some (- 1)
     \<and> string_search_comparisons text pattern = Some 0"
  by (simp add: string_search_def string_search_comparisons_def string_search_run_def
        string_search_outer.simps [of _ _ 0])

theorem string_search_pattern_longer_witness:
  "length ''AB'' < length ''ABC''
     \<and> int (length ''AB'') - int (length ''ABC'') < 0
     \<and> string_search ''AB'' ''ABC'' = Some (- 1)
     \<and> string_search_comparisons ''AB'' ''ABC'' = Some 0"
  using string_search_pattern_longer [of "''AB''" "''ABC''"] by simp

text \<open>
  Claim C7. With an empty pattern \<open>string_search\<close> returns 0, for every text, the empty
  one included.
\<close>

theorem string_search_empty_pattern:
  "string_search text [] = Some 0"
  by (simp add: string_search_def string_search_run_def
        string_search_outer.simps [of _ _ 0] string_search_inner.simps [of _ _ _ 0])

theorem string_search_empty_pattern_witness:
  "string_search [] [] = Some 0 \<and> string_search ''ABC'' [] = Some 0"
  using string_search_empty_pattern [of "[]"] string_search_empty_pattern [of "''ABC''"] by simp

text \<open>
  Claim C1, as amended. On the text \<open>ABABDABACDABABCABCABCABCABC\<close> and the pattern
  \<open>ABABCAB\<close>, \<open>string_search\<close> returns 10, the first offset at which the pattern
  occurs, and \<open>main\<close> passes this value to \<open>printf\<close> and exits with 0.
\<close>

theorem string_search_literal:
  "string_search ''ABABDABACDABABCABCABCABCABC'' ''ABABCAB'' = Some 10
   \<and> take 7 (drop 10 ''ABABDABACDABABCABCABCABCABC'') = ''ABABCAB''
   \<and> main_string_search = Some (Printf ''Pattern found at index: %d\<newline>'' [Int_arg 10], 0)"
  by code_simp

text \<open>Claim C1 as it is written fails: the value returned is not 15.\<close>

theorem string_search_literal_not_15:
  "string_search ''ABABDABACDABABCABCABCABCABC'' ''ABABCAB'' \<noteq> Some 15"
  by code_simp

subsection \<open>gcd\<close>

lemma smod_nonneg: "0 \<le> a \<Longrightarrow> 0 < b \<Longrightarrow> (a::int) smod b = a mod b"
  by (cases "a = 0") (simp_all add: signed_modulo_int_def)

lemma gcd_c_stop: "gcd_c a 0 = Some a"
  by (subst gcd_c.simps) simp

lemma gcd_c_step: "b \<noteq> 0 \<Longrightarrow> gcd_c a b = gcd_c b (a smod b)"
  by (subst gcd_c.simps) simp

lemma gcd_c_eq_gcd: "0 \<le> a \<Longrightarrow> 0 \<le> b \<Longrightarrow> gcd_c a b = Some (gcd a b)"
proof (induction "nat b" arbitrary: a b rule: less_induct)
  case less
  show ?case
  proof (cases "b = 0")
    case True
    with less.prems show ?thesis by (simp add: gcd_c_stop)
  next
    case False
    with less.prems have pos: "0 < b" by simp
    have m: "a smod b = a mod b"
      using less.prems(1) pos by (rule smod_nonneg)
    have "gcd_c b (a mod b) = Some (gcd b (a mod b))"
      using pos by (intro less.hyps) auto
    also have "gcd b (a mod b) = gcd a b"
      by (metis gcd_red_int)
    finally show ?thesis
      using False m by (simp add: gcd_c_step)
  qed
qed

text \<open>
  Claim C9, as amended. For every pair of non-negative integers \<open>a\<close>, \<open>b\<close> that are not
  both zero, \<open>gcd\<close> returns a number that divides \<open>a\<close> and \<open>b\<close> and is the greatest
  integer that does; \<open>gcd(0, 0)\<close> is 0; \<open>gcd(48, 18)\<close> is 6.
\<close>

theorem gcd_greatest_common_divisor:
  "(0 \<le> a \<and> 0 \<le> b \<and> (a \<noteq> 0 \<or> b \<noteq> 0) \<longrightarrow>
      (\<exists>g. gcd_c a b = Some g \<and> g dvd a \<and> g dvd b \<and> (\<forall>d. d dvd a \<and> d dvd b \<longrightarrow> d \<le> g)))
   \<and> gcd_c 0 0 = Some 0
   \<and> gcd_c 48 18 = Some 6"
proof (intro conjI impI)
  assume h: "0 \<le> a \<and> 0 \<le> b \<and> (a \<noteq> 0 \<or> b \<noteq> 0)"
  then have run: "gcd_c a b = Some (gcd a b)"
    by (simp add: gcd_c_eq_gcd)
  from h have pos: "0 < gcd a b"
    by auto
  have "d \<le> gcd a b" if "d dvd a \<and> d dvd b" for d
  proof -
    from that have "d dvd gcd a b" by simp
    with pos show ?thesis by (rule_tac zdvd_imp_le)
  qed
  with run show "\<exists>g. gcd_c a b = Some g \<and> g dvd a \<and> g dvd b \<and> (\<forall>d. d dvd a \<and> d dvd b \<longrightarrow> d \<le> g)"
    by simp
next
  show "gcd_c 0 0 = Some 0" by (simp add: gcd_c_stop)
next
  show "gcd_c 48 18 = Some 6" by code_simp
qed

theorem gcd_greatest_common_divisor_witness:
  "(0::int) \<le> 12 \<and> (0::int) \<le> 8 \<and> (12::int) \<noteq> 0 \<and>
   (\<exists>g. gcd_c 12 8 = Some g \<and> g dvd 12 \<and> g dvd 8 \<and> (\<forall>d. d dvd 12 \<and> d dvd 8 \<longrightarrow> d \<le> g))"
  using gcd_greatest_common_divisor [of 12 8] by simp

text \<open>
  Claim C9 as it is written fails at \<open>(0, 0)\<close>: the function returns 0 there, every
  integer divides 0, and 1 is a common divisor greater than the result.
\<close>

theorem gcd_zero_zero_not_greatest:
  "gcd_c 0 0 = Some 0 \<and> (1::int) dvd 0 \<and> (1::int) dvd 0 \<and> \<not> (1::int) \<le> 0"
  by (simp add: gcd_c_stop)

text \<open>
  Claim C10. For non-negative \<open>a\<close> and \<open>b\<close>, an iteration with \<open>b \<noteq> 0\<close> replaces
  \<open>b\<close> by \<open>a % b\<close>, which is non-negative and strictly smaller than \<open>b\<close>, and the loop
  ends: \<open>gcd\<close> returns a value.
\<close>

theorem gcd_terminates:
  "0 \<le> a \<Longrightarrow> 0 \<le> b \<Longrightarrow>
     (b \<noteq> 0 \<longrightarrow> 0 \<le> a smod b \<and> a smod b < b) \<and> (\<exists>g. gcd_c a b = Some g)"
proof (induction "nat b" arbitrary: a b rule: less_induct)
  case less
  show ?case
  proof (cases "b = 0")
    case True
    then show ?thesis by (simp add: gcd_c_stop)
  next
    case False
    with less.prems have pos: "0 < b" by simp
    have m: "a smod b = a mod b"
      using less.prems(1) pos by (rule smod_nonneg)
    have dec: "0 \<le> a smod b \<and> a smod b < b"
      using pos by (simp add: m)
    then have "nat (a smod b) < nat b" by simp
    then have "\<exists>g. gcd_c b (a smod b) = Some g"
      using less.hyps [of "a smod b" b] dec pos by simp
    with False dec show ?thesis by (simp add: gcd_c_step)
  qed
qed

theorem gcd_terminates_witness:
  "(0::int) \<le> 48 \<and> (0::int) \<le> 18 \<and> (18::int) \<noteq> 0 \<and> 0 \<le> (48::int) smod 18 \<and> (48::int) smod 18 < 18
     \<and> (\<exists>g. gcd_c 48 18 = Some g)"
  using gcd_terminates [of 48 18] by simp

end
